theory Spec2Isabelle
  imports Main "HOL-Library.Word" "HOL-Library.Char_ord" "HOL-Library.List_Lexorder"
begin

section \<open>Addresses\<close>

text \<open>
  The allocator (\<^verbatim>\<open>addr_alloc.go\<close>) handles IPv4 addresses as Go \<^verbatim>\<open>net.IP\<close> values
  that went through \<^verbatim>\<open>To4()\<close>: slices of exactly four bytes, most significant byte
  first. An address is modelled by its four bytes \<^verbatim>\<open>a[0]\<close> .. \<^verbatim>\<open>a[3]\<close>; a Go byte is
  an \<open>8 word\<close>, so \<^verbatim>\<open>a[3]++\<close> wraps from 255 to 0 as it does in Go.
\<close>

datatype ip = IP (a0: "8 word") (a1: "8 word") (a2: "8 word") (a3: "8 word")

text \<open>The slice of bytes behind an address, as \<^verbatim>\<open>bytes.Compare\<close> sees it.\<close>

definition ip_bytes :: "ip \<Rightarrow> 8 word list" where
  "ip_bytes a = [a0 a, a1 a, a2 a, a3 a]"

text \<open>The big-endian 32-bit reading of an address, as a natural number.\<close>

definition ip_val :: "ip \<Rightarrow> nat" where
  "ip_val a = unat (a0 a) * 16777216 + unat (a1 a) * 65536 + unat (a2 a) * 256 + unat (a3 a)"

text \<open>
  \<^verbatim>\<open>ini = net.ParseIP("10.8.0.2").To4()\<close> is the first address to allocate and
  \<^verbatim>\<open>fin = net.ParseIP("10.92.255.255").To4()\<close> the one whose allocation fails.
\<close>

definition ini :: ip where
  "ini = IP 10 8 0 2"

definition fin :: ip where
  "fin = IP 10 92 255 255"

text \<open>
  \<^verbatim>\<open>nextIP\<close> increments the address in place, byte by byte from the last one. The model
  returns the incremented address. The assignments \<^verbatim>\<open>a[3] = 0\<close>, \<^verbatim>\<open>a[2] = 0\<close> and
  \<^verbatim>\<open>a[1] = 0\<close> of the source store the value the byte already has.
\<close>

definition nextIP :: "ip \<Rightarrow> ip" where
  "nextIP a =
     (let b3 = a3 a + 1 in
      if b3 = 0 then
        (let b2 = a2 a + 1 in
         if b2 = 0 then
           (let b1 = a1 a + 1 in
            if b1 = 0 then IP (a0 a + 1) 0 0 0
            else IP (a0 a) b1 0 0)
         else IP (a0 a) (a1 a) b2 0)
      else IP (a0 a) (a1 a) (a2 a) b3)"

text \<open>
  \<^verbatim>\<open>bytes.Compare\<close> of the Go standard library: the lexicographic comparison of two
  byte slices, with result -1, 0 or 1.
\<close>

fun bytes_Compare :: "8 word list \<Rightarrow> 8 word list \<Rightarrow> int" where
  "bytes_Compare [] [] = 0"
| "bytes_Compare [] (y # ys) = - 1"
| "bytes_Compare (x # xs) [] = 1"
| "bytes_Compare (x # xs) (y # ys) =
     (if x < y then - 1 else if y < x then 1 else bytes_Compare xs ys)"

text \<open>
  \<^verbatim>\<open>net.IP.String\<close> on a 4-byte address: the four bytes in decimal, joined by dots.
\<close>

definition digit :: "nat \<Rightarrow> char" where
  "digit n = ''0123456789'' ! n"

fun uitoa :: "nat \<Rightarrow> string" where
  "uitoa n = (if n < 10 then [digit n] else uitoa (n div 10) @ [digit (n mod 10)])"

declare uitoa.simps [simp del]

definition ip_String :: "ip \<Rightarrow> string" where
  "ip_String a = uitoa (unat (a0 a)) @ ''.'' @ uitoa (unat (a1 a)) @ ''.''
     @ uitoa (unat (a2 a)) @ ''.'' @ uitoa (unat (a3 a))"

section \<open>The key-value store\<close>

text \<open>
  The records live in one bucket (\<^verbatim>\<open>"addresses"\<close>) of a Bolt database
  (\<^verbatim>\<open>github.com/boltdb/bolt\<close>, a library outside this repository). The bucket is
  modelled by the list of its key/value pairs in the order a cursor walks them
  (\<^verbatim>\<open>c.First()\<close>, \<^verbatim>\<open>c.Next()\<close>): ascending byte order of the keys. Keys are device
  names, values are 4-byte addresses.
\<close>

type_synonym bucket = "(string \<times> ip) list"

text \<open>\<^verbatim>\<open>b.Get(key)\<close>: the value stored under the key, or \<^verbatim>\<open>nil\<close>.\<close>

definition bucket_Get :: "bucket \<Rightarrow> string \<Rightarrow> ip option" where
  "bucket_Get b k = map_of b k"

datatype bolt_error = ErrKeyRequired | ErrKeyTooLarge | ErrTx

definition MaxKeySize :: nat where
  "MaxKeySize = 32768"

text \<open>Storing a pair: an existing key is overwritten, a new key goes to its sorted place.\<close>

fun put_sorted :: "string \<Rightarrow> ip \<Rightarrow> bucket \<Rightarrow> bucket" where
  "put_sorted k v [] = [(k, v)]"
| "put_sorted k v ((k', v') # b) =
     (if k = k' then (k, v) # b
      else if k < k' then (k, v) # (k', v') # b
      else (k', v') # put_sorted k v b)"

text \<open>
  \<^verbatim>\<open>b.Put(key, value)\<close> in a writable transaction. Bolt refuses a key of length zero
  (\<^verbatim>\<open>ErrKeyRequired\<close>) and a key longer than \<^verbatim>\<open>MaxKeySize\<close> (\<^verbatim>\<open>ErrKeyTooLarge\<close>);
  otherwise it sets the value for the key, overwriting a previous value.
\<close>

definition bucket_Put :: "string \<Rightarrow> ip \<Rightarrow> bucket \<Rightarrow> bolt_error + bucket" where
  "bucket_Put k v b =
     (if length k = 0 then Inl ErrKeyRequired
      else if length k > MaxKeySize then Inl ErrKeyTooLarge
      else Inr (put_sorted k v b))"

text \<open>
  What the storage engine does with one \<^verbatim>\<open>db.Update\<close> transaction is an input of the
  model: the transaction commits, or it fails before the function runs (it cannot
  begin), or it fails when committing. A failed transaction is rolled back and
  \<^verbatim>\<open>db.Update\<close> returns an error.
\<close>

datatype txn = Commits | BeginFails | CommitFails

definition db_Update :: "txn \<Rightarrow> (bucket \<Rightarrow> bolt_error + bucket) \<Rightarrow> bucket
    \<Rightarrow> bolt_error option \<times> bucket" where
  "db_Update t fn b =
     (case t of
        BeginFails \<Rightarrow> (Some ErrTx, b)
      | CommitFails \<Rightarrow> (case fn b of Inl e \<Rightarrow> (Some e, b) | Inr b' \<Rightarrow> (Some ErrTx, b))
      | Commits \<Rightarrow> (case fn b of Inl e \<Rightarrow> (Some e, b) | Inr b' \<Rightarrow> (None, b')))"

section \<open>The handler\<close>

text \<open>
  \<^verbatim>\<open>type Handler struct { db *bolt.DB; next net.IP }\<close>: the store and the next address
  to allocate.
\<close>

record Handler =
  db :: bucket
  "next" :: ip

datatype body = Plain string | Mappings "(string \<times> string) list"

datatype response = Response (status: nat) (body: body)

text \<open>
  A request comes with the outcomes of the transactions its handler will run: the first
  \<^verbatim>\<open>db.Update\<close> and, for an allocation, the second.
\<close>

record env =
  txn1 :: txn
  txn2 :: txn

text \<open>
  The first transaction of \<^verbatim>\<open>ServeGet\<close>. Its function only reads: it sets \<^verbatim>\<open>addr\<close> and
  \<^verbatim>\<open>found\<close> when the device has a record, and returns \<^verbatim>\<open>nil\<close>. The result is the
  error of \<^verbatim>\<open>db.Update\<close> and the address text found, if any.
\<close>

definition lookup_txn :: "txn \<Rightarrow> string \<Rightarrow> bucket \<Rightarrow> bolt_error option \<times> string option" where
  "lookup_txn t device b =
     (case t of
        BeginFails \<Rightarrow> (Some ErrTx, None)
      | CommitFails \<Rightarrow> (Some ErrTx, map_option ip_String (bucket_Get b device))
      | Commits \<Rightarrow> (None, map_option ip_String (bucket_Get b device)))"

text \<open>
  \<^verbatim>\<open>ServeGet\<close>: look the device up; if it has no record, fail when \<^verbatim>\<open>next\<close> is \<^verbatim>\<open>fin\<close>,
  otherwise write the record in a second transaction and, if that succeeded, increment
  \<^verbatim>\<open>next\<close>. The lines printed on standard output are not modelled.
\<close>

definition ServeGet :: "env \<Rightarrow> string \<Rightarrow> Handler \<Rightarrow> response \<times> Handler" where
  "ServeGet e device h =
     (let (err, found) = lookup_txn (txn1 e) device (db h) in
      if err \<noteq> None then (Response 500 (Plain ''Database lookup failed.''), h)
      else case found of
        Some addr \<Rightarrow> (Response 200 (Plain addr), h)
      | None \<Rightarrow>
          if bytes_Compare (ip_bytes (next h)) (ip_bytes fin) = 0
          then (Response 500 (Plain ''Ran out of IP addresses.''), h)
          else
            (let addr = ip_String (next h);
                 (err', b') = db_Update (txn2 e) (bucket_Put device (next h)) (db h)
             in if err' \<noteq> None
                then (Response 500 (Plain ''Database write failed.''), h\<lparr>db := b'\<rparr>)
                else (Response 200 (Plain addr), \<lparr>db = b', next = nextIP (next h)\<rparr>)))"

text \<open>
  \<^verbatim>\<open>ServeAll\<close>: collect every record as device name and address text. The error of
  \<^verbatim>\<open>db.Update\<close> is not looked at, so a transaction that could not begin leaves the
  mapping empty. The body is the mapping that \<^verbatim>\<open>json.Marshal\<close> serialises.
\<close>

definition ServeAll :: "env \<Rightarrow> Handler \<Rightarrow> response \<times> Handler" where
  "ServeAll e h =
     (let mappings = (case txn1 e of
                        BeginFails \<Rightarrow> []
                      | _ \<Rightarrow> map (\<lambda>(k, v). (k, ip_String v)) (db h))
      in (Response 200 (Mappings mappings), h))"

definition HasPrefix :: "string \<Rightarrow> string \<Rightarrow> bool" where
  "HasPrefix s p = (length p \<le> length s \<and> take (length p) s = p)"

definition TrimPrefix :: "string \<Rightarrow> string \<Rightarrow> string" where
  "TrimPrefix s p = (if HasPrefix s p then drop (length p) s else s)"

text \<open>\<^verbatim>\<open>ServeHTTP\<close> dispatches on the path of the request.\<close>

definition ServeHTTP :: "env \<Rightarrow> string \<Rightarrow> Handler \<Rightarrow> response \<times> Handler" where
  "ServeHTTP e path h =
     (if path = ''/all'' then ServeAll e h
      else if HasPrefix path ''/get/'' then ServeGet e (TrimPrefix path ''/get/'') h
      else (Response 404 (Plain ''Not found.''), h))"

section \<open>Start-up\<close>

text \<open>
  \<^verbatim>\<open>main\<close> sets \<^verbatim>\<open>handler.next = ini\<close> and walks the bucket: a record whose address
  compares greater than or equal to \<^verbatim>\<open>handler.next\<close> moves \<^verbatim>\<open>handler.next\<close> to the
  successor of that address. \<open>scan\<close> is the loop over the cursor, \<open>main_recover\<close> the
  handler that \<^verbatim>\<open>main\<close> hands to the server when the store works. The assignment
  \<^verbatim>\<open>handler.next = ini\<close> shares the array of \<^verbatim>\<open>ini\<close>, which later increments
  change in place; \<^verbatim>\<open>ini\<close> is not read again after this assignment, so the model keeps
  it a constant.
\<close>

fun scan :: "bucket \<Rightarrow> ip \<Rightarrow> ip" where
  "scan [] n = n"
| "scan ((k, v) # rs) n =
     scan rs (if bytes_Compare (ip_bytes v) (ip_bytes n) \<ge> 0 then nextIP v else n)"

definition main_recover :: "bucket \<Rightarrow> Handler" where
  "main_recover b = \<lparr>db = b, next = scan b ini\<rparr>"

section \<open>Sequences of requests\<close>

text \<open>Requests served one after the other, each with its path and its transaction outcomes.\<close>

type_synonym request = "env \<times> string"

fun serve :: "request list \<Rightarrow> Handler \<Rightarrow> Handler" where
  "serve [] h = h"
| "serve ((e, path) # rs) h = serve rs (snd (ServeHTTP e path h))"

text \<open>
  The records a request created: the pairs of the bucket after the request whose device
  had no record before it. \<open>allocations\<close> lists them along a sequence of requests, in
  the order they were created.
\<close>

definition created :: "Handler \<Rightarrow> Handler \<Rightarrow> (string \<times> ip) list" where
  "created h h' = filter (\<lambda>(k, v). bucket_Get (db h) k = None) (db h')"

fun allocations :: "request list \<Rightarrow> Handler \<Rightarrow> (string \<times> ip) list" where
  "allocations [] h = []"
| "allocations ((e, path) # rs) h =
     (let h' = snd (ServeHTTP e path h) in created h h' @ allocations rs h')"

section \<open>Requests in flight at the same time\<close>

text \<open>
  The HTTP server runs the handler of each connection in its own goroutine, on the one
  shared \<^verbatim>\<open>Handler\<close>. \<^verbatim>\<open>ServeGet\<close> takes no lock; the store serialises the
  transactions, nothing else. So \<^verbatim>\<open>ServeGet\<close> is cut at its transactions into steps
  that run one at a time: the lookup transaction, the test against \<^verbatim>\<open>fin\<close> with the
  formatting of \<^verbatim>\<open>addr\<close>, the write transaction (which reads \<^verbatim>\<open>h.next\<close> when it
  runs), and the increment of \<^verbatim>\<open>h.next\<close> with the response.
\<close>

datatype pc = Lookup | Check | Write string | Advance string | Done response

fun step :: "env \<Rightarrow> string \<Rightarrow> pc \<Rightarrow> Handler \<Rightarrow> pc \<times> Handler" where
  "step e device Lookup h =
     (let (err, found) = lookup_txn (txn1 e) device (db h) in
      if err \<noteq> None then (Done (Response 500 (Plain ''Database lookup failed.'')), h)
      else case found of
        Some addr \<Rightarrow> (Done (Response 200 (Plain addr)), h)
      | None \<Rightarrow> (Check, h))"
| "step e device Check h =
     (if bytes_Compare (ip_bytes (next h)) (ip_bytes fin) = 0
      then (Done (Response 500 (Plain ''Ran out of IP addresses.'')), h)
      else (Write (ip_String (next h)), h))"
| "step e device (Write addr) h =
     (let (err', b') = db_Update (txn2 e) (bucket_Put device (next h)) (db h)
      in if err' \<noteq> None
         then (Done (Response 500 (Plain ''Database write failed.'')), h\<lparr>db := b'\<rparr>)
         else (Advance addr, h\<lparr>db := b'\<rparr>))"
| "step e device (Advance addr) h =
     (Done (Response 200 (Plain addr)), h\<lparr>next := nextIP (next h)\<rparr>)"
| "step e device (Done r) h = (Done r, h)"

text \<open>
  A schedule names, step by step, the request that moves next. \<open>interleave\<close> runs a
  schedule on the requests in flight, each a triple of its transaction outcomes, its
  device and where it stands.
\<close>

type_synonym thread = "env \<times> string \<times> pc"

fun interleave :: "nat list \<Rightarrow> thread list \<Rightarrow> Handler \<Rightarrow> thread list \<times> Handler" where
  "interleave [] ts h = (ts, h)"
| "interleave (i # is) ts h =
     (if i < length ts
      then (case ts ! i of (e, device, p) \<Rightarrow>
              (case step e device p h of (p', h') \<Rightarrow>
                 interleave is (ts[i := (e, device, p')]) h'))
      else interleave is ts h)"

section \<open>Conditions on a request\<close>

text \<open>
  The write transaction of \<^verbatim>\<open>ServeGet\<close> fails when the store does not commit it or
  when \<^verbatim>\<open>b.Put\<close> refuses the key.
\<close>

definition write_fails :: "env \<Rightarrow> string \<Rightarrow> bool" where
  "write_fails e device \<longleftrightarrow>
     txn2 e \<noteq> Commits \<or> length device = 0 \<or> MaxKeySize < length device"

text \<open>
  The one path of \<^verbatim>\<open>ServeGet\<close> that changes the handler: the lookup went through,
  the device has no record, \<^verbatim>\<open>next\<close> is not \<^verbatim>\<open>fin\<close> and the write went through.
\<close>

definition allocates :: "env \<Rightarrow> string \<Rightarrow> Handler \<Rightarrow> bool" where
  "allocates e device h \<longleftrightarrow>
     txn1 e = Commits \<and> bucket_Get (db h) device = None \<and> next h \<noteq> fin
     \<and> \<not> write_fails e device"

section \<open>The successor function\<close>

lemma unat_byte_lt: "unat (b :: 8 word) < 256"
  using unsigned_less [of b, where 'a = nat] by simp

lemma byte_minus_one: "(- 1 :: 8 word) = 255"
  by simp

lemma byte_succ_zero: "(b :: 8 word) + 1 = 0 \<longleftrightarrow> unat b = 255"
proof -
  have "b + 1 = 0 \<longleftrightarrow> b = - 1" by (simp add: eq_neg_iff_add_eq_0)
  also have "\<dots> \<longleftrightarrow> b = 255" by (simp only: byte_minus_one)
  also have "\<dots> \<longleftrightarrow> unat b = unat (255 :: 8 word)" by (simp only: word_unat_eq_iff)
  also have "\<dots> \<longleftrightarrow> unat b = 255" by simp
  finally show ?thesis .
qed

lemma unat_byte_succ: "unat (b :: 8 word) \<noteq> 255 \<Longrightarrow> unat (b + 1) = unat b + 1"
  using unat_byte_lt [of b] by (simp add: unat_word_ariths)

lemma unat_byte_succ_wrap: "unat (b :: 8 word) = 255 \<Longrightarrow> unat (b + 1) = 0"
  by (simp add: unat_word_ariths)

lemma ip_val_lt: "ip_val a < 4294967296"
  using unat_byte_lt [of "a0 a"] unat_byte_lt [of "a1 a"]
    unat_byte_lt [of "a2 a"] unat_byte_lt [of "a3 a"]
  by (simp add: ip_val_def)

lemma ip_val_nextIP: "ip_val (nextIP a) = (ip_val a + 1) mod 4294967296"
proof (cases "unat (a3 a) = 255")
  case False
  have "ip_val (nextIP a) = ip_val a + 1"
    using False by (simp add: nextIP_def Let_def byte_succ_zero ip_val_def unat_byte_succ)
  moreover have "ip_val a + 1 < 4294967296"
    using False unat_byte_lt [of "a0 a"] unat_byte_lt [of "a1 a"]
      unat_byte_lt [of "a2 a"] unat_byte_lt [of "a3 a"]
    by (simp add: ip_val_def)
  ultimately show ?thesis by simp
next
  case c3: True
  show ?thesis
  proof (cases "unat (a2 a) = 255")
    case False
    have "ip_val (nextIP a) = ip_val a + 1"
      using c3 False by (simp add: nextIP_def Let_def byte_succ_zero ip_val_def unat_byte_succ)
    moreover have "ip_val a + 1 < 4294967296"
      using c3 False unat_byte_lt [of "a0 a"] unat_byte_lt [of "a1 a"]
        unat_byte_lt [of "a2 a"]
      by (simp add: ip_val_def)
    ultimately show ?thesis by simp
  next
    case c2: True
    show ?thesis
    proof (cases "unat (a1 a) = 255")
      case False
      have "ip_val (nextIP a) = ip_val a + 1"
        using c3 c2 False
        by (simp add: nextIP_def Let_def byte_succ_zero ip_val_def unat_byte_succ)
      moreover have "ip_val a + 1 < 4294967296"
        using c3 c2 False unat_byte_lt [of "a0 a"] unat_byte_lt [of "a1 a"]
        by (simp add: ip_val_def)
      ultimately show ?thesis by simp
    next
      case c1: True
      show ?thesis
      proof (cases "unat (a0 a) = 255")
        case False
        have "ip_val (nextIP a) = ip_val a + 1"
          using c3 c2 c1 False
          by (simp add: nextIP_def Let_def byte_succ_zero ip_val_def unat_byte_succ)
        moreover have "ip_val a + 1 < 4294967296"
          using c3 c2 c1 False unat_byte_lt [of "a0 a"]
          by (simp add: ip_val_def)
        ultimately show ?thesis by simp
      next
        case True
        then show ?thesis
          using c3 c2 c1
          by (simp add: nextIP_def Let_def byte_succ_zero ip_val_def unat_byte_succ_wrap)
      qed
    qed
  qed
qed

text \<open>
  C4. For every 4-byte address, \<^verbatim>\<open>nextIP\<close> increments the least significant byte and
  carries into the more significant bytes, through all four, and has no error result:
  on the big-endian 32-bit reading it is the addition of 1 modulo \<open>2 ^ 32\<close>. In
  particular the successor of 10.8.0.255 is 10.8.1.0, the successor of 10.255.255.255 is
  11.0.0.0 and the successor of 255.255.255.255 is 0.0.0.0.
\<close>

theorem nextIP_successor:
  "ip_val (nextIP a) = (ip_val a + 1) mod 2 ^ 32
   \<and> nextIP (IP 10 8 0 255) = IP 10 8 1 0
   \<and> nextIP (IP 10 255 255 255) = IP 11 0 0 0
   \<and> nextIP (IP 255 255 255 255) = IP 0 0 0 0"
  by (simp add: ip_val_nextIP) (simp add: nextIP_def)

section \<open>Comparing addresses\<close>

lemma horner_lt1:
  "x < (256::nat) \<Longrightarrow> p < q \<Longrightarrow> p * 256 + x < q * 256 + y"
proof -
  assume x: "x < 256" and pq: "p < q"
  from pq have "Suc p \<le> q" by simp
  then have "Suc p * 256 \<le> q * 256" by (rule mult_le_mono1)
  with x show ?thesis by simp
qed

lemma horner_lt:
  assumes "x < (256::nat)" "y < 256"
  shows "(p * 256 + x < q * 256 + y) = (p < q \<or> (p = q \<and> x < y))"
proof (cases p q rule: linorder_cases)
  case less
  then show ?thesis using horner_lt1 [OF assms(1) less, of y] by simp
next
  case equal
  then show ?thesis by simp
next
  case greater
  then show ?thesis using horner_lt1 [OF assms(2) greater, of x] by simp
qed

lemma horner_eq:
  assumes "x < (256::nat)" "y < 256"
  shows "(p * 256 + x = q * 256 + y) = (p = q \<and> x = y)"
proof (cases p q rule: linorder_cases)
  case less
  then show ?thesis using horner_lt1 [OF assms(1) less, of y] by simp
next
  case equal
  then show ?thesis by simp
next
  case greater
  then show ?thesis using horner_lt1 [OF assms(2) greater, of x] by simp
qed

lemma ip_val_horner:
  "ip_val a = ((unat (a0 a) * 256 + unat (a1 a)) * 256 + unat (a2 a)) * 256 + unat (a3 a)"
  by (simp add: ip_val_def)

lemmas byte_horner_lt = horner_lt [OF unat_byte_lt unat_byte_lt]
lemmas byte_horner_eq = horner_eq [OF unat_byte_lt unat_byte_lt]

lemma ip_val_inj: "ip_val a = ip_val b \<longleftrightarrow> a = b"
proof -
  have "ip_val a = ip_val b \<longleftrightarrow>
      a0 a = a0 b \<and> a1 a = a1 b \<and> a2 a = a2 b \<and> a3 a = a3 b"
    by (simp only: ip_val_horner byte_horner_eq word_unat_eq_iff conj_assoc)
  also have "\<dots> \<longleftrightarrow> a = b"
    by (cases a; cases b) simp
  finally show ?thesis .
qed

lemma ip_val_less:
  "ip_val a < ip_val b \<longleftrightarrow>
     a0 a < a0 b \<or> (a0 a = a0 b \<and>
       (a1 a < a1 b \<or> (a1 a = a1 b \<and>
         (a2 a < a2 b \<or> (a2 a = a2 b \<and> a3 a < a3 b)))))"
  by (simp only: ip_val_horner byte_horner_lt byte_horner_eq word_less_nat_alt word_unat_eq_iff)
    blast

lemma bytes_Compare_less:
  "bytes_Compare (ip_bytes a) (ip_bytes b) < 0 \<longleftrightarrow> ip_val a < ip_val b"
proof -
  have "bytes_Compare (ip_bytes a) (ip_bytes b) < 0 \<longleftrightarrow>
     a0 a < a0 b \<or> (a0 a = a0 b \<and>
       (a1 a < a1 b \<or> (a1 a = a1 b \<and>
         (a2 a < a2 b \<or> (a2 a = a2 b \<and> a3 a < a3 b)))))"
    by (auto simp add: ip_bytes_def)
  then show ?thesis by (simp only: ip_val_less)
qed

lemma bytes_Compare_ge:
  "0 \<le> bytes_Compare (ip_bytes a) (ip_bytes b) \<longleftrightarrow> ip_val b \<le> ip_val a"
  using bytes_Compare_less [of a b] by (simp add: not_less [symmetric])

lemma bytes_Compare_eq: "bytes_Compare (ip_bytes a) (ip_bytes b) = 0 \<longleftrightarrow> a = b"
  by (cases a; cases b) (auto simp add: ip_bytes_def)

section \<open>The store\<close>

lemma map_of_put_sorted:
  "map_of (put_sorted k v b) k' = (if k' = k then Some v else map_of b k')"
  by (induction b) auto

lemma bucket_Get_put_sorted:
  "bucket_Get (put_sorted k v b) k' = (if k' = k then Some v else bucket_Get b k')"
  by (simp add: bucket_Get_def map_of_put_sorted)

lemma map_of_seen: "(k, v) \<in> set b \<Longrightarrow> map_of b k \<noteq> None"
  by (induction b) auto

lemma filter_unseen_subset:
  "set c \<subseteq> set b \<Longrightarrow> filter (\<lambda>(k, v). map_of b k = None) c = []"
proof (induction c)
  case Nil
  then show ?case by simp
next
  case (Cons x c)
  obtain k v where x: "x = (k, v)" by (cases x)
  then have "map_of b k \<noteq> None" using Cons.prems map_of_seen [of k v b] by simp
  then show ?case using Cons x by simp
qed

lemma filter_unseen_self: "filter (\<lambda>(k, v). map_of b k = None) b = []"
  by (rule filter_unseen_subset) simp

lemma filter_unseen_put_sorted:
  "map_of b k = None \<Longrightarrow>
   filter (\<lambda>(k', v'). map_of b k' = None) (put_sorted k v b) = [(k, v)]"
proof -
  assume n: "map_of b k = None"
  have "\<And>c. set c \<subseteq> set b \<Longrightarrow>
     filter (\<lambda>(k', v'). map_of b k' = None) (put_sorted k v c) = [(k, v)]"
  proof -
    fix c show "set c \<subseteq> set b \<Longrightarrow>
     filter (\<lambda>(k', v'). map_of b k' = None) (put_sorted k v c) = [(k, v)]"
    proof (induction c)
      case Nil
      then show ?case using n by simp
    next
      case (Cons x c)
      obtain k' v' where x: "x = (k', v')" by (cases x)
      have in_b: "(k', v') \<in> set b" using Cons.prems x by simp
      then have seen: "map_of b k' \<noteq> None"
        by (rule map_of_seen)
      have rest: "filter (\<lambda>(k', v'). map_of b k' = None) c = []"
        using Cons.prems by (intro filter_unseen_subset) simp
      show ?case
        using Cons x seen n rest by auto
    qed
  qed
  then show ?thesis by simp
qed

lemma db_Update_Put_fails:
  "write_fails e device \<Longrightarrow> \<exists>err. db_Update (txn2 e) (bucket_Put device v) b = (Some err, b)"
  by (cases "txn2 e") (auto simp add: write_fails_def db_Update_def bucket_Put_def)

lemma db_Update_Put_ok:
  "\<not> write_fails e device \<Longrightarrow>
   db_Update (txn2 e) (bucket_Put device v) b = (None, put_sorted device v b)"
  by (cases "txn2 e") (auto simp add: write_fails_def db_Update_def bucket_Put_def)

lemma ServeGet_lookup_fails:
  "txn1 e \<noteq> Commits \<Longrightarrow> ServeGet e device h = (Response 500 (Plain ''Database lookup failed.''), h)"
  by (cases "txn1 e") (simp_all add: ServeGet_def lookup_txn_def)

lemma ServeGet_found:
  "txn1 e = Commits \<Longrightarrow> bucket_Get (db h) device = Some a \<Longrightarrow>
   ServeGet e device h = (Response 200 (Plain (ip_String a)), h)"
  by (simp add: ServeGet_def lookup_txn_def)

lemma ServeGet_exhausted:
  "txn1 e = Commits \<Longrightarrow> bucket_Get (db h) device = None \<Longrightarrow> next h = fin \<Longrightarrow>
   ServeGet e device h = (Response 500 (Plain ''Ran out of IP addresses.''), h)"
  by (simp add: ServeGet_def lookup_txn_def bytes_Compare_eq)

lemma ServeGet_write_fails:
  assumes "txn1 e = Commits" "bucket_Get (db h) device = None" "next h \<noteq> fin"
    "write_fails e device"
  shows "ServeGet e device h = (Response 500 (Plain ''Database write failed.''), h)"
proof -
  obtain err where "db_Update (txn2 e) (bucket_Put device (next h)) (db h) = (Some err, db h)"
    using db_Update_Put_fails [OF assms(4)] by blast
  then show ?thesis
    using assms(1-3) by (simp add: ServeGet_def lookup_txn_def bytes_Compare_eq)
qed

lemma ServeGet_allocates:
  assumes "txn1 e = Commits" "bucket_Get (db h) device = None" "next h \<noteq> fin"
    "\<not> write_fails e device"
  shows "ServeGet e device h =
    (Response 200 (Plain (ip_String (next h))),
     \<lparr>db = put_sorted device (next h) (db h), next = nextIP (next h)\<rparr>)"
  using assms by (simp add: ServeGet_def lookup_txn_def bytes_Compare_eq db_Update_Put_ok)

lemma ServeGet_unchanged:
  "\<not> allocates e device h \<Longrightarrow> snd (ServeGet e device h) = h"
proof (cases "txn1 e = Commits")
  case False
  then show ?thesis by (simp add: ServeGet_lookup_fails)
next
  case c: True
  assume na: "\<not> allocates e device h"
  show ?thesis
  proof (cases "bucket_Get (db h) device")
    case (Some a)
    then show ?thesis using c by (simp add: ServeGet_found)
  next
    case None
    show ?thesis
    proof (cases "next h = fin")
      case True
      then show ?thesis using c None by (simp add: ServeGet_exhausted)
    next
      case False
      then have "write_fails e device" using na c None by (simp add: allocates_def)
      then show ?thesis using c None False by (simp add: ServeGet_write_fails)
    qed
  qed
qed

section \<open>One request\<close>

lemma ServeGet_allocates':
  "allocates e device h \<Longrightarrow> ServeGet e device h =
    (Response 200 (Plain (ip_String (next h))),
     \<lparr>db = put_sorted device (next h) (db h), next = nextIP (next h)\<rparr>)"
  by (simp add: allocates_def ServeGet_allocates)

text \<open>
  Every request either leaves the handler as it is or is an allocation: the device had
  no record, and the handler gains the record of the old \<^verbatim>\<open>next\<close> and its successor
  as the new \<^verbatim>\<open>next\<close>.
\<close>

lemma ServeHTTP_cases:
  "snd (ServeHTTP e path h) = h
   \<or> (\<exists>device. allocates e device h
        \<and> ServeHTTP e path h =
          (Response 200 (Plain (ip_String (next h))),
           \<lparr>db = put_sorted device (next h) (db h), next = nextIP (next h)\<rparr>))"
proof (cases "path \<noteq> ''/all'' \<and> HasPrefix path ''/get/''
    \<and> allocates e (TrimPrefix path ''/get/'') h")
  case True
  then have "ServeHTTP e path h = ServeGet e (TrimPrefix path ''/get/'') h"
    by (simp add: ServeHTTP_def)
  with True show ?thesis using ServeGet_allocates' by metis
next
  case False
  then have "snd (ServeHTTP e path h) = h"
    by (auto simp add: ServeHTTP_def ServeAll_def ServeGet_unchanged)
  then show ?thesis ..
qed

lemma allocation_keeps_records:
  assumes "bucket_Get b d = Some a" "bucket_Get b device = None"
  shows "bucket_Get (put_sorted device v b) d = Some a"
  using assms by (auto simp add: bucket_Get_put_sorted)

lemma ServeHTTP_keeps_record:
  assumes "bucket_Get (db h) d = Some a"
  shows "bucket_Get (db (snd (ServeHTTP e path h))) d = Some a"
  using ServeHTTP_cases [of e path h]
proof
  assume "snd (ServeHTTP e path h) = h"
  then show ?thesis using assms by simp
next
  assume "\<exists>device. allocates e device h
        \<and> ServeHTTP e path h =
          (Response 200 (Plain (ip_String (next h))),
           \<lparr>db = put_sorted device (next h) (db h), next = nextIP (next h)\<rparr>)"
  then obtain device where al: "allocates e device h"
    and eq: "ServeHTTP e path h =
          (Response 200 (Plain (ip_String (next h))),
           \<lparr>db = put_sorted device (next h) (db h), next = nextIP (next h)\<rparr>)"
    by blast
  have "bucket_Get (db h) device = None" using al by (simp add: allocates_def)
  then show ?thesis using assms eq by (simp add: allocation_keeps_records)
qed

lemma serve_keeps_record:
  "bucket_Get (db h) d = Some a \<Longrightarrow> bucket_Get (db (serve rs h)) d = Some a"
proof (induction rs arbitrary: h)
  case Nil
  then show ?case by simp
next
  case (Cons r rs)
  obtain e path where r: "r = (e, path)" by (cases r)
  show ?case
    using Cons.IH [OF ServeHTTP_keeps_record [OF Cons.prems, of e path]] r by simp
qed

lemma created_same: "created h h = []"
  by (simp add: created_def bucket_Get_def filter_unseen_self)

lemma created_allocation:
  "bucket_Get (db h) device = None \<Longrightarrow>
   created h \<lparr>db = put_sorted device v (db h), next = n\<rparr> = [(device, v)]"
  by (simp add: created_def bucket_Get_def filter_unseen_put_sorted)

lemma ip_val_fin: "ip_val fin = 173867007"
  by (simp add: fin_def ip_val_def)

lemma ip_val_ini: "ip_val ini = 168296450"
  by (simp add: ini_def ip_val_def)

lemma nextIP_below:
  "ip_val a < ip_val fin \<Longrightarrow> ip_val (nextIP a) = ip_val a + 1"
  by (simp add: ip_val_nextIP ip_val_fin)

section \<open>Allocations along a sequence of requests\<close>

lemma allocations_step:
  "allocations ((e, path) # rs) h =
     created h (snd (ServeHTTP e path h)) @ allocations rs (snd (ServeHTTP e path h))"
  by (simp add: Let_def)

text \<open>
  From a cursor at or below \<^verbatim>\<open>fin\<close>, the records created are the successive values of
  the cursor: increasing, from \<^verbatim>\<open>next\<close> on, and below \<^verbatim>\<open>fin\<close>.
\<close>

lemma allocations_bounds:
  "ip_val (next h) \<le> ip_val fin \<Longrightarrow>
   sorted_wrt (<) (map (\<lambda>x. ip_val (snd x)) (allocations rs h))
   \<and> (\<forall>x \<in> set (allocations rs h). ip_val (next h) \<le> ip_val (snd x) \<and> ip_val (snd x) < ip_val fin)
   \<and> (allocations rs h \<noteq> [] \<longrightarrow> snd (hd (allocations rs h)) = next h)"
proof (induction rs arbitrary: h)
  case Nil
  then show ?case by simp
next
  case (Cons r rs)
  obtain e path where r: "r = (e, path)" by (cases r)
  from ServeHTTP_cases [of e path h] show ?case
  proof
    assume same: "snd (ServeHTTP e path h) = h"
    then have "allocations (r # rs) h = allocations rs h"
      using r by (simp add: created_same)
    then show ?thesis using Cons.IH [OF Cons.prems] by simp
  next
    assume "\<exists>device. allocates e device h
        \<and> ServeHTTP e path h =
          (Response 200 (Plain (ip_String (next h))),
           \<lparr>db = put_sorted device (next h) (db h), next = nextIP (next h)\<rparr>)"
    then obtain device where al: "allocates e device h"
      and eq: "ServeHTTP e path h =
          (Response 200 (Plain (ip_String (next h))),
           \<lparr>db = put_sorted device (next h) (db h), next = nextIP (next h)\<rparr>)"
      by blast
    define h' where "h' = \<lparr>db = put_sorted device (next h) (db h), next = nextIP (next h)\<rparr>"
    have unseen: "bucket_Get (db h) device = None" and nf: "next h \<noteq> fin"
      using al by (simp_all add: allocates_def)
    have lt: "ip_val (next h) < ip_val fin"
      using Cons.prems nf by (simp add: order_less_le ip_val_inj)
    have nx: "ip_val (next h') = ip_val (next h) + 1"
      using lt by (simp add: h'_def nextIP_below)
    have le': "ip_val (next h') \<le> ip_val fin" using lt nx by simp
    have al_eq: "allocations (r # rs) h = (device, next h) # allocations rs h'"
      using r eq unseen by (simp add: h'_def created_allocation)
    note ih = Cons.IH [OF le']
    have 1: "sorted_wrt (<) (map (\<lambda>x. ip_val (snd x)) (allocations rs h'))"
      and 2: "\<forall>x \<in> set (allocations rs h'). ip_val (next h') \<le> ip_val (snd x) \<and> ip_val (snd x) < ip_val fin"
      using ih by blast+
    have "sorted_wrt (<) (map (\<lambda>x. ip_val (snd x)) (allocations (r # rs) h))"
      using 1 2 nx by (auto simp add: al_eq)
    moreover have "\<forall>x \<in> set (allocations (r # rs) h).
        ip_val (next h) \<le> ip_val (snd x) \<and> ip_val (snd x) < ip_val fin"
      using 2 nx lt by (auto simp add: al_eq)
    moreover have "snd (hd (allocations (r # rs) h)) = next h"
      by (simp add: al_eq)
    ultimately show ?thesis by simp
  qed
qed

text \<open>A device is given a record at most once, and only when it had none.\<close>

lemma allocations_devices:
  "distinct (map fst (allocations rs h))
   \<and> (\<forall>x \<in> set (allocations rs h). bucket_Get (db h) (fst x) = None)"
proof (induction rs arbitrary: h)
  case Nil
  then show ?case by simp
next
  case (Cons r rs)
  obtain e path where r: "r = (e, path)" by (cases r)
  from ServeHTTP_cases [of e path h] show ?case
  proof
    assume same: "snd (ServeHTTP e path h) = h"
    then have "allocations (r # rs) h = allocations rs h"
      using r by (simp add: created_same)
    then show ?thesis using Cons.IH [of h] by simp
  next
    assume "\<exists>device. allocates e device h
        \<and> ServeHTTP e path h =
          (Response 200 (Plain (ip_String (next h))),
           \<lparr>db = put_sorted device (next h) (db h), next = nextIP (next h)\<rparr>)"
    then obtain device where al: "allocates e device h"
      and eq: "ServeHTTP e path h =
          (Response 200 (Plain (ip_String (next h))),
           \<lparr>db = put_sorted device (next h) (db h), next = nextIP (next h)\<rparr>)"
      by blast
    define h' where "h' = \<lparr>db = put_sorted device (next h) (db h), next = nextIP (next h)\<rparr>"
    have unseen: "bucket_Get (db h) device = None"
      using al by (simp add: allocates_def)
    have al_eq: "allocations (r # rs) h = (device, next h) # allocations rs h'"
      using r eq unseen by (simp add: h'_def created_allocation)
    have 1: "distinct (map fst (allocations rs h'))"
      and 2: "\<forall>x \<in> set (allocations rs h'). bucket_Get (db h') (fst x) = None"
      using Cons.IH [of h'] by blast+
    have 3: "\<forall>x \<in> set (allocations rs h'). fst x \<noteq> device \<and> bucket_Get (db h) (fst x) = None"
      using 2 by (auto simp add: h'_def bucket_Get_put_sorted split: if_splits)
    show ?thesis
      using 1 3 unseen by (auto simp add: al_eq)
  qed
qed

lemma sorted_wrt_less_distinct:
  "sorted_wrt (<) (map (\<lambda>x. ip_val (snd x)) xs) \<Longrightarrow> distinct (map snd xs)"
proof (induction xs)
  case Nil
  then show ?case by simp
next
  case (Cons x xs)
  then show ?case by (auto simp add: image_iff)
qed

section \<open>The scan at start-up\<close>

lemma ip_val_top: "ip_val (IP 255 255 255 255) = 4294967295"
  by (simp add: ip_val_def)

lemma nextIP_nowrap:
  "a \<noteq> IP 255 255 255 255 \<Longrightarrow> ip_val (nextIP a) = ip_val a + 1"
proof -
  assume "a \<noteq> IP 255 255 255 255"
  then have "ip_val a \<noteq> 4294967295"
    using ip_val_inj [of a "IP 255 255 255 255"] by (simp add: ip_val_top)
  then have "ip_val a + 1 < 4294967296"
    using ip_val_lt [of a] by simp
  then show ?thesis by (simp add: ip_val_nextIP)
qed

lemma scan_step:
  "scan ((k, v) # rs) n = scan rs (if ip_val n \<le> ip_val v then nextIP v else n)"
  by (simp add: bytes_Compare_ge)

lemma scan_cases: "scan b n = n \<or> (\<exists>x \<in> set b. scan b n = nextIP (snd x))"
proof (induction b arbitrary: n)
  case Nil
  then show ?case by simp
next
  case (Cons y b)
  obtain k v where y: "y = (k, v)" by (cases y)
  define n' where "n' = (if ip_val n \<le> ip_val v then nextIP v else n)"
  have sc: "scan (y # b) n = scan b n'"
    using y by (simp add: scan_step n'_def del: scan.simps)
  have n': "n' = n \<or> n' = nextIP (snd y)"
    using y by (simp add: n'_def)
  from Cons.IH [of n'] show ?case
  proof
    assume "scan b n' = n'"
    then show ?thesis using sc n' by auto
  next
    assume "\<exists>x \<in> set b. scan b n' = nextIP (snd x)"
    then show ?thesis using sc by auto
  qed
qed

lemma scan_ge:
  "\<forall>x \<in> set b. snd x \<noteq> IP 255 255 255 255 \<Longrightarrow> ip_val n \<le> ip_val (scan b n)"
proof (induction b arbitrary: n)
  case Nil
  then show ?case by simp
next
  case (Cons x b)
  obtain k v where x: "x = (k, v)" by (cases x)
  define n' where "n' = (if ip_val n \<le> ip_val v then nextIP v else n)"
  have v: "v \<noteq> IP 255 255 255 255" using Cons.prems x by simp
  have "ip_val n \<le> ip_val n'"
    using nextIP_nowrap [OF v] by (simp add: n'_def)
  moreover have "ip_val n' \<le> ip_val (scan b n')"
    using Cons.IH [of n'] Cons.prems by simp
  ultimately show ?case
    using x by (simp add: scan_step n'_def del: scan.simps)
qed

lemma scan_gt:
  "\<forall>x \<in> set b. snd x \<noteq> IP 255 255 255 255 \<Longrightarrow> x \<in> set b \<Longrightarrow>
   ip_val (snd x) < ip_val (scan b n)"
proof (induction b arbitrary: n)
  case Nil
  then show ?case by simp
next
  case (Cons y b)
  obtain k v where y: "y = (k, v)" by (cases y)
  define n' where "n' = (if ip_val n \<le> ip_val v then nextIP v else n)"
  have v: "v \<noteq> IP 255 255 255 255" using Cons.prems(1) y by simp
  have rest: "\<forall>x \<in> set b. snd x \<noteq> IP 255 255 255 255" using Cons.prems(1) by simp
  have sc: "scan (y # b) n = scan b n'"
    using y by (simp add: scan_step n'_def del: scan.simps)
  show ?case
  proof (cases "x = y")
    case True
    have "ip_val v < ip_val n'"
      using nextIP_nowrap [OF v] by (simp add: n'_def)
    also have "\<dots> \<le> ip_val (scan b n')" by (rule scan_ge [OF rest])
    finally show ?thesis using True y sc by simp
  next
    case False
    then have "x \<in> set b" using Cons.prems(2) by simp
    then show ?thesis using Cons.IH [OF rest, of n'] sc by simp
  qed
qed

text \<open>
  The cursor after the scan when no record holds 255.255.255.255: the successor of a
  highest record, if some record is at or above the starting value.
\<close>

lemma scan_highest:
  assumes nw: "\<forall>x \<in> set b. snd x \<noteq> IP 255 255 255 255"
    and ex: "\<exists>x \<in> set b. ip_val n \<le> ip_val (snd x)"
  shows "\<exists>m \<in> set b. (\<forall>x \<in> set b. ip_val (snd x) \<le> ip_val (snd m)) \<and> scan b n = nextIP (snd m)"
proof -
  from ex obtain y where y: "y \<in> set b" "ip_val n \<le> ip_val (snd y)" by blast
  have "ip_val (snd y) < ip_val (scan b n)" by (rule scan_gt [OF nw y(1)])
  then have "scan b n \<noteq> n" using y(2) by auto
  then obtain m where m: "m \<in> set b" "scan b n = nextIP (snd m)"
    using scan_cases [of b n] by blast
  have mv: "ip_val (nextIP (snd m)) = ip_val (snd m) + 1"
    using nw m(1) by (simp add: nextIP_nowrap)
  have "\<forall>x \<in> set b. ip_val (snd x) \<le> ip_val (snd m)"
  proof
    fix x assume "x \<in> set b"
    then have "ip_val (snd x) < ip_val (scan b n)" by (rule scan_gt [OF nw])
    then show "ip_val (snd x) \<le> ip_val (snd m)" using m(2) mv by simp
  qed
  then show ?thesis using m by blast
qed

lemma scan_none_higher:
  "\<forall>x \<in> set b. ip_val (snd x) < ip_val n \<Longrightarrow> scan b n = n"
proof (induction b)
  case Nil
  then show ?case by simp
next
  case (Cons x b)
  obtain k v where x: "x = (k, v)" by (cases x)
  then have "\<not> ip_val n \<le> ip_val v" using Cons.prems by auto
  then show ?case using Cons x by (simp add: scan_step del: scan.simps)
qed

section \<open>Address text\<close>

lemma digit_inj: "i < 10 \<Longrightarrow> j < 10 \<Longrightarrow> digit i = digit j \<Longrightarrow> i = j"
proof -
  assume a: "i < 10" "j < 10" "digit i = digit j"
  have d: "distinct ''0123456789''" by simp
  have l: "length ''0123456789'' = 10" by simp
  show "i = j"
    using a nth_eq_iff_index_eq [OF d, of i j] by (simp add: digit_def)
qed

lemma digit_not_dot: "i < 10 \<Longrightarrow> digit i \<noteq> CHR ''.''"
proof -
  assume "i < 10"
  then have "''0123456789'' ! i \<in> set ''0123456789''" by (intro nth_mem) simp
  then show ?thesis by (auto simp add: digit_def)
qed

lemma uitoa_no_dot: "CHR ''.'' \<notin> set (uitoa n)"
proof (induction n rule: uitoa.induct)
  case (1 n)
  show ?case
  proof (cases "n < 10")
    case True
    then show ?thesis using digit_not_dot [of n] by (simp add: uitoa.simps [of n])
  next
    case False
    then show ?thesis
      using 1 digit_not_dot [of "n mod 10"] by (simp add: uitoa.simps [of n])
  qed
qed

lemma uitoa_length: "length (uitoa n) = 1 \<longleftrightarrow> n < 10"
proof (cases "n < 10")
  case True
  then show ?thesis by (simp add: uitoa.simps [of n])
next
  case False
  have "uitoa (n div 10) \<noteq> []"
    by (cases "n div 10 < 10") (simp_all add: uitoa.simps [of "n div 10"])
  then show ?thesis using False by (simp add: uitoa.simps [of n])
qed

lemma uitoa_inj: "uitoa n = uitoa m \<Longrightarrow> n = m"
proof (induction n arbitrary: m rule: uitoa.induct)
  case (1 n)
  have len: "n < 10 \<longleftrightarrow> m < 10"
    using "1.prems" uitoa_length [of n] uitoa_length [of m] by simp
  show ?case
  proof (cases "n < 10")
    case True
    then have "digit n = digit m" using "1.prems" len
      by (simp add: uitoa.simps [of n] uitoa.simps [of m])
    then show ?thesis using True len by (simp add: digit_inj)
  next
    case False
    then have m: "\<not> m < 10" using len by simp
    have "uitoa (n div 10) @ [digit (n mod 10)] = uitoa (m div 10) @ [digit (m mod 10)]"
      using "1.prems" False m by (simp add: uitoa.simps [of n] uitoa.simps [of m])
    then have a: "uitoa (n div 10) = uitoa (m div 10)" and b: "digit (n mod 10) = digit (m mod 10)"
      by simp_all
    have "n div 10 = m div 10" using "1.IH" [OF False a] .
    moreover have "n mod 10 = m mod 10" using b by (simp add: digit_inj)
    ultimately show ?thesis by (metis div_mult_mod_eq)
  qed
qed

lemma takeWhile_until:
  "c \<notin> set s \<Longrightarrow> takeWhile (\<lambda>x. x \<noteq> c) (s @ c # r) = s"
  by (induction s) auto

lemma split_dot:
  assumes "CHR ''.'' \<notin> set s" "CHR ''.'' \<notin> set t" "s @ CHR ''.'' # r = t @ CHR ''.'' # u"
  shows "s = t \<and> r = u"
proof -
  have "takeWhile (\<lambda>c. c \<noteq> CHR ''.'') (s @ CHR ''.'' # r) = s"
    using assms(1) by (rule takeWhile_until)
  moreover have "takeWhile (\<lambda>c. c \<noteq> CHR ''.'') (t @ CHR ''.'' # u) = t"
    using assms(2) by (rule takeWhile_until)
  ultimately have "s = t" using assms(3) by simp
  then show ?thesis using assms(3) by simp
qed

lemma ip_String_inj: "ip_String a = ip_String b \<Longrightarrow> a = b"
proof -
  assume eq: "ip_String a = ip_String b"
  let ?r2 = "\<lambda>x. uitoa (unat (a2 x)) @ CHR ''.'' # uitoa (unat (a3 x))"
  let ?r1 = "\<lambda>x. uitoa (unat (a1 x)) @ CHR ''.'' # ?r2 x"
  have e0: "uitoa (unat (a0 a)) @ CHR ''.'' # ?r1 a = uitoa (unat (a0 b)) @ CHR ''.'' # ?r1 b"
    using eq by (simp add: ip_String_def)
  from split_dot [OF uitoa_no_dot uitoa_no_dot e0]
  have s0: "uitoa (unat (a0 a)) = uitoa (unat (a0 b))" and e1: "?r1 a = ?r1 b" by simp_all
  from split_dot [OF uitoa_no_dot uitoa_no_dot e1]
  have s1: "uitoa (unat (a1 a)) = uitoa (unat (a1 b))" and e2: "?r2 a = ?r2 b" by simp_all
  from split_dot [OF uitoa_no_dot uitoa_no_dot e2]
  have s2: "uitoa (unat (a2 a)) = uitoa (unat (a2 b))"
    and s3: "uitoa (unat (a3 a)) = uitoa (unat (a3 b))" by simp_all
  have "a0 a = a0 b" "a1 a = a1 b" "a2 a = a2 b" "a3 a = a3 b"
    using s0 s1 s2 s3 by (simp_all add: word_unat_eq_iff uitoa_inj)
  then show "a = b" by (simp add: ip.expand)
qed

section \<open>Evaluating requests\<close>

lemmas serve_eval = ServeHTTP_def ServeAll_def HasPrefix_def TrimPrefix_def ServeGet_def
  lookup_txn_def bucket_Get_def ip_bytes_def fin_def ini_def db_Update_def bucket_Put_def
  MaxKeySize_def nextIP_def ip_String_def uitoa.simps digit_def main_recover_def created_def

lemma created_answer:
  "x \<in> set (created h (snd (ServeHTTP e path h))) \<Longrightarrow>
   fst (ServeHTTP e path h) = Response 200 (Plain (ip_String (snd x)))"
  using ServeHTTP_cases [of e path h]
proof
  assume "snd (ServeHTTP e path h) = h"
  moreover assume "x \<in> set (created h (snd (ServeHTTP e path h)))"
  ultimately show ?thesis by (simp add: created_same)
next
  assume x: "x \<in> set (created h (snd (ServeHTTP e path h)))"
  assume "\<exists>device. allocates e device h
        \<and> ServeHTTP e path h =
          (Response 200 (Plain (ip_String (next h))),
           \<lparr>db = put_sorted device (next h) (db h), next = nextIP (next h)\<rparr>)"
  then obtain device where al: "allocates e device h"
    and eq: "ServeHTTP e path h =
          (Response 200 (Plain (ip_String (next h))),
           \<lparr>db = put_sorted device (next h) (db h), next = nextIP (next h)\<rparr>)"
    by blast
  have "bucket_Get (db h) device = None" using al by (simp add: allocates_def)
  then have "x = (device, next h)" using x eq by (simp add: created_allocation)
  then show ?thesis using eq by simp
qed

lemma main_recover_empty: "main_recover [] = \<lparr>db = [], next = ini\<rparr>"
  by (simp add: main_recover_def)

lemma scan_below_fin:
  assumes "\<forall>x \<in> set b. ip_val (snd x) < ip_val fin"
  shows "ip_val (scan b ini) \<le> ip_val fin"
  using scan_cases [of b ini]
proof
  assume "scan b ini = ini"
  then show ?thesis by (simp add: ip_val_ini ip_val_fin)
next
  assume "\<exists>x \<in> set b. scan b ini = nextIP (snd x)"
  then obtain x where x: "x \<in> set b" "scan b ini = nextIP (snd x)" by blast
  have "ip_val (snd x) < ip_val fin" using assms x(1) by simp
  then show ?thesis using x(2) by (simp add: nextIP_below)
qed

lemma distinct_texts:
  "distinct (map snd xs) \<Longrightarrow> distinct (map (\<lambda>x. ip_String (snd x)) xs)"
  by (induction xs) (auto dest: ip_String_inj)

lemma write_fails_empty: "write_fails e []"
  by (simp add: write_fails_def)

text \<open>
  A request that runs its steps with no other request in between does what \<^verbatim>\<open>ServeGet\<close>
  does: the steps are a cut of \<^verbatim>\<open>ServeGet\<close>, not another function.
\<close>

lemma steps_alone:
  "interleave [0, 0, 0, 0] [(e, device, Lookup)] h
     = ([(e, device, Done (fst (ServeGet e device h)))], snd (ServeGet e device h))"
proof (cases "txn1 e = Commits")
  case False
  then show ?thesis
    by (cases "txn1 e") (simp_all add: ServeGet_def lookup_txn_def)
next
  case c: True
  show ?thesis
  proof (cases "bucket_Get (db h) device")
    case (Some a)
    then show ?thesis using c by (simp add: ServeGet_def lookup_txn_def)
  next
    case None
    show ?thesis
    proof (cases "next h = fin")
      case True
      then show ?thesis using c None by (simp add: ServeGet_def lookup_txn_def bytes_Compare_eq)
    next
      case nf: False
      show ?thesis
      proof (cases "write_fails e device")
        case True
        then obtain err where
          "db_Update (txn2 e) (bucket_Put device (next h)) (db h) = (Some err, db h)"
          using db_Update_Put_fails by blast
        then show ?thesis
          using c None nf by (simp add: ServeGet_def lookup_txn_def bytes_Compare_eq)
      next
        case False
        then have "db_Update (txn2 e) (bucket_Put device (next h)) (db h)
            = (None, put_sorted device (next h) (db h))"
          by (rule db_Update_Put_ok)
        then show ?thesis
          using c None nf by (simp add: ServeGet_def lookup_txn_def bytes_Compare_eq)
      qed
    qed
  qed
qed

section \<open>Resolving a device that has a record\<close>

text \<open>
  C1. With requests served one at a time: a device that has a record gets the address of
  that record from every call of \<^verbatim>\<open>ServeGet\<close> whose lookup transaction commits, on the
  spot and after any sequence of other requests, whatever the value of \<^verbatim>\<open>next\<close> is
  (also when \<^verbatim>\<open>next\<close> is \<^verbatim>\<open>fin\<close>), and the call leaves the handler as it was.
\<close>

theorem resolve_existing_device:
  assumes "bucket_Get (db h) d = Some a" and "txn1 e = Commits"
  shows "ServeGet e d (serve rs h) = (Response 200 (Plain (ip_String a)), serve rs h)"
  using serve_keeps_record [OF assms(1), of rs] assms(2) by (rule ServeGet_found [rotated])

theorem resolve_existing_device_witness:
  "bucket_Get (db \<lparr>db = [(''a'', IP 10 8 0 2), (''b'', IP 10 92 255 254)], next = fin\<rparr>) ''a''
     = Some (IP 10 8 0 2)
   \<and> txn1 \<lparr>txn1 = Commits, txn2 = Commits\<rparr> = Commits
   \<and> ServeGet \<lparr>txn1 = Commits, txn2 = Commits\<rparr> ''a''
        (serve [(\<lparr>txn1 = Commits, txn2 = Commits\<rparr>, ''/get/c''),
                (\<lparr>txn1 = Commits, txn2 = Commits\<rparr>, ''/get/a'')]
           \<lparr>db = [(''a'', IP 10 8 0 2), (''b'', IP 10 92 255 254)], next = fin\<rparr>)
     = (Response 200 (Plain ''10.8.0.2''),
        \<lparr>db = [(''a'', IP 10 8 0 2), (''b'', IP 10 92 255 254)], next = fin\<rparr>)"
proof -
  let ?h = "\<lparr>db = [(''a'', IP 10 8 0 2), (''b'', IP 10 92 255 254)], next = fin\<rparr>"
  let ?e = "\<lparr>txn1 = Commits, txn2 = Commits\<rparr>"
  let ?rs = "[(?e, ''/get/c''), (?e, ''/get/a'')]"
  have 1: "bucket_Get (db ?h) ''a'' = Some (IP 10 8 0 2)"
    by (simp add: bucket_Get_def)
  have 2: "txn1 ?e = Commits" by simp
  have s1: "snd (ServeHTTP ?e ''/get/c'' ?h) = ?h"
    by (simp add: ServeHTTP_def HasPrefix_def TrimPrefix_def ServeGet_def lookup_txn_def
        bucket_Get_def bytes_Compare_eq)
  have s2: "snd (ServeHTTP ?e ''/get/a'' ?h) = ?h"
    by (simp add: ServeHTTP_def HasPrefix_def TrimPrefix_def ServeGet_def lookup_txn_def
        bucket_Get_def)
  have 3: "serve ?rs ?h = ?h" by (simp only: serve.simps s1 s2)
  have 4: "ip_String (IP 10 8 0 2) = ''10.8.0.2''"
    by (simp add: ip_String_def uitoa.simps digit_def)
  show ?thesis
    using resolve_existing_device [OF 1 2, of ?rs] 1 2 unfolding 3 4 by simp
qed

section \<open>Two requests at the same time\<close>

text \<open>
  C2. The lookup and the write of \<^verbatim>\<open>ServeGet\<close> are two transactions, and other
  requests can run between them. Two first requests for the same device \<^verbatim>\<open>x\<close>, with
  every transaction committing: both lookups find nothing, the first request writes
  10.8.0.2 and answers it, then the second writes 10.8.0.3 over that record and answers
  10.8.0.3. Two first requests for the devices \<^verbatim>\<open>a\<close> and \<^verbatim>\<open>b\<close>, step by step in turn:
  both are answered 10.8.0.2 and both records hold 10.8.0.2.
\<close>

theorem concurrent_requests_both_allocate:
  "interleave [0, 1, 0, 0, 0, 1, 1, 1]
     [(\<lparr>txn1 = Commits, txn2 = Commits\<rparr>, ''x'', Lookup),
      (\<lparr>txn1 = Commits, txn2 = Commits\<rparr>, ''x'', Lookup)] (main_recover [])
   = ([(\<lparr>txn1 = Commits, txn2 = Commits\<rparr>, ''x'', Done (Response 200 (Plain ''10.8.0.2''))),
       (\<lparr>txn1 = Commits, txn2 = Commits\<rparr>, ''x'', Done (Response 200 (Plain ''10.8.0.3'')))],
      \<lparr>db = [(''x'', IP 10 8 0 3)], next = IP 10 8 0 4\<rparr>)
   \<and> interleave [0, 1, 0, 1, 0, 1, 0, 1]
     [(\<lparr>txn1 = Commits, txn2 = Commits\<rparr>, ''a'', Lookup),
      (\<lparr>txn1 = Commits, txn2 = Commits\<rparr>, ''b'', Lookup)] (main_recover [])
   = ([(\<lparr>txn1 = Commits, txn2 = Commits\<rparr>, ''a'', Done (Response 200 (Plain ''10.8.0.2''))),
       (\<lparr>txn1 = Commits, txn2 = Commits\<rparr>, ''b'', Done (Response 200 (Plain ''10.8.0.2'')))],
      \<lparr>db = [(''a'', IP 10 8 0 2), (''b'', IP 10 8 0 2)], next = IP 10 8 0 4\<rparr>)"
  by (simp add: serve_eval)

section \<open>The cursor after start-up\<close>

text \<open>
  The scan does not always end on the successor of the highest recorded address. A
  record below \<^verbatim>\<open>ini\<close> is passed over: with the one record 10.8.0.0 the cursor is
  \<^verbatim>\<open>ini\<close>, not 10.8.0.1. A record 255.255.255.255 wraps the cursor to 0.0.0.0, and any
  record scanned after it moves the cursor again: with the records 255.255.255.255 and
  10.8.0.5 the cursor is 10.8.0.6 in one order of scanning and 0.0.0.0 in the other.
\<close>

theorem recovery_counterexample:
  "next (main_recover [(''a'', IP 10 8 0 0)]) \<noteq> nextIP (IP 10 8 0 0)
   \<and> next (main_recover [(''a'', IP 255 255 255 255), (''b'', IP 10 8 0 5)])
       \<noteq> nextIP (IP 255 255 255 255)
   \<and> scan [(''a'', IP 255 255 255 255), (''b'', IP 10 8 0 5)] ini
       \<noteq> scan [(''b'', IP 10 8 0 5), (''a'', IP 255 255 255 255)] ini"
  by (simp add: main_recover_def ip_bytes_def ini_def nextIP_def)

text \<open>
  C3, amended. For every list of records none of which holds 255.255.255.255: after the
  scan \<^verbatim>\<open>next\<close> is the successor of a highest recorded address when some recorded
  address is at or above \<^verbatim>\<open>ini\<close>, and is \<^verbatim>\<open>ini\<close> when there is no record or every
  recorded address is below \<^verbatim>\<open>ini\<close>; it depends on the set of recorded addresses only,
  not on the order of scanning; scanning again from the result, or from scratch, gives
  the same cursor.
\<close>

theorem recovery_cursor:
  assumes "\<forall>x \<in> set b. snd x \<noteq> IP 255 255 255 255"
  shows "((\<exists>x \<in> set b. ip_val ini \<le> ip_val (snd x)) \<longrightarrow>
           (\<exists>m \<in> set b. (\<forall>x \<in> set b. ip_val (snd x) \<le> ip_val (snd m))
              \<and> next (main_recover b) = nextIP (snd m)))
    \<and> ((\<forall>x \<in> set b. ip_val (snd x) < ip_val ini) \<longrightarrow> next (main_recover b) = ini)
    \<and> (snd ` set b' = snd ` set b \<longrightarrow> next (main_recover b') = next (main_recover b))
    \<and> scan b (next (main_recover b)) = next (main_recover b)
    \<and> main_recover (db (main_recover b)) = main_recover b"
proof -
  have nx: "next (main_recover c) = scan c ini" for c by (simp add: main_recover_def)
  have 1: "\<exists>m \<in> set b. (\<forall>x \<in> set b. ip_val (snd x) \<le> ip_val (snd m))
              \<and> next (main_recover b) = nextIP (snd m)"
    if "\<exists>x \<in> set b. ip_val ini \<le> ip_val (snd x)"
    using scan_highest [OF assms that] by (simp add: nx)
  have 2: "next (main_recover b) = ini" if "\<forall>x \<in> set b. ip_val (snd x) < ip_val ini"
    using scan_none_higher [OF that] by (simp add: nx)
  have 3: "next (main_recover b') = next (main_recover b)" if eq: "snd ` set b' = snd ` set b"
  proof (cases "\<exists>x \<in> set b. ip_val ini \<le> ip_val (snd x)")
    case True
    have nw': "\<forall>x \<in> set b'. snd x \<noteq> IP 255 255 255 255"
    proof
      fix x assume "x \<in> set b'"
      then have "snd x \<in> snd ` set b" using eq by blast
      then show "snd x \<noteq> IP 255 255 255 255" using assms by auto
    qed
    from True obtain y where "y \<in> set b" "ip_val ini \<le> ip_val (snd y)" by blast
    then have "snd y \<in> snd ` set b'" and yl: "ip_val ini \<le> ip_val (snd y)"
      using eq by blast+
    then obtain y' where "y' \<in> set b'" "snd y' = snd y" by (auto simp add: image_iff)
    then have ex': "\<exists>x \<in> set b'. ip_val ini \<le> ip_val (snd x)"
      using yl by metis
    obtain m where m: "m \<in> set b" "\<forall>x \<in> set b. ip_val (snd x) \<le> ip_val (snd m)"
      "scan b ini = nextIP (snd m)"
      using scan_highest [OF assms True] by blast
    obtain m' where m': "m' \<in> set b'" "\<forall>x \<in> set b'. ip_val (snd x) \<le> ip_val (snd m')"
      "scan b' ini = nextIP (snd m')"
      using scan_highest [OF nw' ex'] by blast
    have "snd m \<in> snd ` set b'" using m(1) eq by blast
    then have le1: "ip_val (snd m) \<le> ip_val (snd m')" using m'(2) by auto
    have "snd m' \<in> snd ` set b" using m'(1) eq by blast
    then have le2: "ip_val (snd m') \<le> ip_val (snd m)" using m(2) by auto
    have "snd m = snd m'" using le1 le2 ip_val_inj [of "snd m" "snd m'"] by simp
    then show ?thesis using m(3) m'(3) by (simp add: nx)
  next
    case False
    then have lo: "\<forall>x \<in> set b. ip_val (snd x) < ip_val ini" by auto
    have lo': "\<forall>x \<in> set b'. ip_val (snd x) < ip_val ini"
    proof
      fix x assume "x \<in> set b'"
      then have "snd x \<in> snd ` set b" using eq by blast
      then show "ip_val (snd x) < ip_val ini" using lo by auto
    qed
    show ?thesis using scan_none_higher [OF lo] scan_none_higher [OF lo'] by (simp add: nx)
  qed
  have 4: "scan b (next (main_recover b)) = next (main_recover b)"
  proof -
    have "\<forall>x \<in> set b. ip_val (snd x) < ip_val (scan b ini)"
      using scan_gt [OF assms] by blast
    then show ?thesis unfolding nx by (rule scan_none_higher)
  qed
  have 5: "main_recover (db (main_recover b)) = main_recover b"
    by (simp add: main_recover_def)
  from 1 2 3 4 5 show ?thesis by blast
qed

theorem recovery_cursor_witness:
  "(\<exists>x \<in> set [(''a'', IP 10 8 0 5), (''b'', IP 10 8 0 3)]. ip_val ini \<le> ip_val (snd x))
   \<and> (\<exists>m \<in> set [(''a'', IP 10 8 0 5), (''b'', IP 10 8 0 3)].
         ip_val (IP 10 8 0 5) \<le> ip_val (snd m) \<and> ip_val (IP 10 8 0 3) \<le> ip_val (snd m)
         \<and> next (main_recover [(''a'', IP 10 8 0 5), (''b'', IP 10 8 0 3)]) = nextIP (snd m))
   \<and> next (main_recover [(''a'', IP 10 8 0 5), (''b'', IP 10 8 0 3)]) = IP 10 8 0 6
   \<and> snd ` set [(''x'', IP 10 8 0 3), (''y'', IP 10 8 0 5)]
       = snd ` set [(''a'', IP 10 8 0 5), (''b'', IP 10 8 0 3)]
   \<and> next (main_recover [(''x'', IP 10 8 0 3), (''y'', IP 10 8 0 5)])
       = next (main_recover [(''a'', IP 10 8 0 5), (''b'', IP 10 8 0 3)])
   \<and> ip_val (IP 10 8 0 0) < ip_val ini
   \<and> next (main_recover [(''a'', IP 10 8 0 0)]) = ini"
proof -
  let ?b = "[(''a'', IP 10 8 0 5), (''b'', IP 10 8 0 3)]"
  let ?b' = "[(''x'', IP 10 8 0 3), (''y'', IP 10 8 0 5)]"
  let ?c = "[(''a'', IP 10 8 0 0)]"
  have 1: "\<forall>x \<in> set ?b. snd x \<noteq> IP 255 255 255 255" by simp
  have 2: "\<exists>x \<in> set ?b. ip_val ini \<le> ip_val (snd x)" by (simp add: ip_val_def ini_def)
  have 3: "snd ` set ?b' = snd ` set ?b" by auto
  have 4: "\<forall>x \<in> set ?c. snd x \<noteq> IP 255 255 255 255" by simp
  have 5: "\<forall>x \<in> set ?c. ip_val (snd x) < ip_val ini" by (simp add: ip_val_def ini_def)
  have 6: "next (main_recover ?b) = IP 10 8 0 6"
    by (simp add: main_recover_def ip_bytes_def ini_def nextIP_def)
  note t1 = recovery_cursor [OF 1, of ?b']
  note t2 = recovery_cursor [OF 4, of ?c]
  have "\<exists>m \<in> set ?b. (\<forall>x \<in> set ?b. ip_val (snd x) \<le> ip_val (snd m))
         \<and> next (main_recover ?b) = nextIP (snd m)"
    using t1 2 by blast
  then have r1: "\<exists>m \<in> set ?b.
         ip_val (IP 10 8 0 5) \<le> ip_val (snd m) \<and> ip_val (IP 10 8 0 3) \<le> ip_val (snd m)
         \<and> next (main_recover ?b) = nextIP (snd m)"
    by simp
  have r2: "next (main_recover ?b') = next (main_recover ?b)" using t1 3 by blast
  have r3: "next (main_recover ?c) = ini" using t2 5 by blast
  have r4: "ip_val (IP 10 8 0 0) < ip_val ini" using 5 by simp
  from 2 r1 6 3 r2 r4 r3 show ?thesis by blast
qed

section \<open>Failures of a first request\<close>

text \<open>
  C5. A device with no record, asked for when \<^verbatim>\<open>next\<close> is \<^verbatim>\<open>fin\<close>: the response has
  status 500, and the handler (records and cursor) is as it was. When the lookup
  transaction committed, the response is the one of the exhausted pool,
  \<^verbatim>\<open>Ran out of IP addresses.\<close>
\<close>

theorem exhausted_pool:
  assumes "bucket_Get (db h) d = None" and "next h = fin"
  shows "status (fst (ServeGet e d h)) = 500 \<and> snd (ServeGet e d h) = h
    \<and> (txn1 e = Commits \<longrightarrow>
         ServeGet e d h = (Response 500 (Plain ''Ran out of IP addresses.''), h))"
proof (cases "txn1 e = Commits")
  case True
  then show ?thesis using assms by (simp add: ServeGet_exhausted)
next
  case False
  then show ?thesis by (simp add: ServeGet_lookup_fails)
qed

theorem exhausted_pool_witness:
  "bucket_Get (db \<lparr>db = [(''a'', IP 10 92 255 254)], next = fin\<rparr>) ''c'' = None
   \<and> next \<lparr>db = [(''a'', IP 10 92 255 254)], next = fin\<rparr> = fin
   \<and> txn1 \<lparr>txn1 = Commits, txn2 = Commits\<rparr> = Commits
   \<and> ServeGet \<lparr>txn1 = Commits, txn2 = Commits\<rparr> ''c''
        \<lparr>db = [(''a'', IP 10 92 255 254)], next = fin\<rparr>
     = (Response 500 (Plain ''Ran out of IP addresses.''),
        \<lparr>db = [(''a'', IP 10 92 255 254)], next = fin\<rparr>)"
proof -
  let ?h = "\<lparr>db = [(''a'', IP 10 92 255 254)], next = fin\<rparr>"
  let ?e = "\<lparr>txn1 = Commits, txn2 = Commits\<rparr>"
  have 1: "bucket_Get (db ?h) ''c'' = None" by (simp add: bucket_Get_def)
  have 2: "next ?h = fin" by simp
  have 3: "txn1 ?e = Commits" by simp
  show ?thesis
    using exhausted_pool [OF 1 2, of ?e] 1 by simp
qed

text \<open>
  C6. A device with no record, a lookup that committed and \<^verbatim>\<open>next\<close> other than
  \<^verbatim>\<open>fin\<close>: when the write transaction fails, the response is 500
  \<^verbatim>\<open>Database write failed.\<close> and the handler is as it was, records and cursor; when it
  commits, the response is the old \<^verbatim>\<open>next\<close>, the record is written and \<^verbatim>\<open>next\<close> is
  its successor. The cursor moves only after a write that succeeded.
\<close>

theorem write_failure:
  assumes "bucket_Get (db h) d = None" and "txn1 e = Commits" and "next h \<noteq> fin"
  shows "(write_fails e d \<longrightarrow>
            ServeGet e d h = (Response 500 (Plain ''Database write failed.''), h))
    \<and> (\<not> write_fails e d \<longrightarrow>
            ServeGet e d h = (Response 200 (Plain (ip_String (next h))),
              \<lparr>db = put_sorted d (next h) (db h), next = nextIP (next h)\<rparr>))"
  using assms by (simp add: ServeGet_write_fails ServeGet_allocates)

theorem write_failure_witness:
  "bucket_Get (db \<lparr>db = [], next = ini\<rparr>) ''a'' = None
   \<and> next \<lparr>db = [], next = ini\<rparr> \<noteq> fin
   \<and> write_fails \<lparr>txn1 = Commits, txn2 = CommitFails\<rparr> ''a''
   \<and> ServeGet \<lparr>txn1 = Commits, txn2 = CommitFails\<rparr> ''a'' \<lparr>db = [], next = ini\<rparr>
       = (Response 500 (Plain ''Database write failed.''), \<lparr>db = [], next = ini\<rparr>)
   \<and> \<not> write_fails \<lparr>txn1 = Commits, txn2 = Commits\<rparr> ''a''
   \<and> ServeGet \<lparr>txn1 = Commits, txn2 = Commits\<rparr> ''a'' \<lparr>db = [], next = ini\<rparr>
       = (Response 200 (Plain ''10.8.0.2''), \<lparr>db = [(''a'', IP 10 8 0 2)], next = IP 10 8 0 3\<rparr>)"
proof -
  let ?h = "\<lparr>db = [], next = ini\<rparr>"
  have 1: "bucket_Get (db ?h) ''a'' = None" by (simp add: bucket_Get_def)
  have 2: "next ?h \<noteq> fin" by (simp add: ini_def fin_def)
  have 3: "write_fails \<lparr>txn1 = Commits, txn2 = CommitFails\<rparr> ''a''"
    by (simp add: write_fails_def)
  have 4: "\<not> write_fails \<lparr>txn1 = Commits, txn2 = Commits\<rparr> ''a''"
    by (simp add: write_fails_def MaxKeySize_def)
  have 5: "ip_String (next ?h) = ''10.8.0.2''"
    by (simp add: ini_def ip_String_def uitoa.simps digit_def)
  have 6: "nextIP (next ?h) = IP 10 8 0 3" by (simp add: ini_def nextIP_def)
  show ?thesis
    using write_failure [OF 1 _ 2, of "\<lparr>txn1 = Commits, txn2 = CommitFails\<rparr>"]
      write_failure [OF 1 _ 2, of "\<lparr>txn1 = Commits, txn2 = Commits\<rparr>"] 1 2 3 4 5 6
    by (simp add: ini_def)
qed

section \<open>The addresses handed out\<close>

text \<open>
  C7. From an empty bucket, with \<^verbatim>\<open>next\<close> at \<^verbatim>\<open>ini\<close> and requests served one at a
  time: the addresses of the records created, in the order of their creation, are
  strictly increasing in the big-endian 32-bit reading and the first of them is
  \<^verbatim>\<open>ini\<close>; so they are pairwise different, as addresses and as the text sent back, and
  no device is given a record twice. The request that creates a record answers 200
  with the text of the address recorded.
\<close>

theorem fresh_allocations_increasing:
  "sorted_wrt (<) (map (\<lambda>x. ip_val (snd x)) (allocations rs (main_recover [])))
   \<and> (allocations rs (main_recover []) \<noteq> [] \<longrightarrow>
        snd (hd (allocations rs (main_recover []))) = ini)
   \<and> distinct (map snd (allocations rs (main_recover [])))
   \<and> distinct (map (\<lambda>x. ip_String (snd x)) (allocations rs (main_recover [])))
   \<and> distinct (map fst (allocations rs (main_recover [])))
   \<and> (\<forall>x \<in> set (created h (snd (ServeHTTP e path h))).
        fst (ServeHTTP e path h) = Response 200 (Plain (ip_String (snd x))))"
proof -
  have le: "ip_val (next (main_recover [])) \<le> ip_val fin"
    by (simp add: main_recover_empty ip_val_ini ip_val_fin)
  note b = allocations_bounds [OF le, of rs]
  have 1: "sorted_wrt (<) (map (\<lambda>x. ip_val (snd x)) (allocations rs (main_recover [])))"
    using b by blast
  have 2: "allocations rs (main_recover []) \<noteq> [] \<longrightarrow>
        snd (hd (allocations rs (main_recover []))) = ini"
    using b by (simp add: main_recover_empty)
  have 3: "distinct (map snd (allocations rs (main_recover [])))"
    using 1 by (rule sorted_wrt_less_distinct)
  have 4: "distinct (map (\<lambda>x. ip_String (snd x)) (allocations rs (main_recover [])))"
    using 3 by (rule distinct_texts)
  have 5: "distinct (map fst (allocations rs (main_recover [])))"
    using allocations_devices [of rs "main_recover []"] by blast
  have 6: "\<forall>x \<in> set (created h (snd (ServeHTTP e path h))).
        fst (ServeHTTP e path h) = Response 200 (Plain (ip_String (snd x)))"
    using created_answer by blast
  from 1 2 3 4 5 6 show ?thesis by blast
qed

theorem fresh_allocations_increasing_witness:
  "allocations [(\<lparr>txn1 = Commits, txn2 = Commits\<rparr>, ''/get/b''),
                (\<lparr>txn1 = Commits, txn2 = Commits\<rparr>, ''/get/a''),
                (\<lparr>txn1 = Commits, txn2 = Commits\<rparr>, ''/get/b'')] (main_recover [])
     = [(''b'', IP 10 8 0 2), (''a'', IP 10 8 0 3)]
   \<and> snd (hd (allocations [(\<lparr>txn1 = Commits, txn2 = Commits\<rparr>, ''/get/b''),
                (\<lparr>txn1 = Commits, txn2 = Commits\<rparr>, ''/get/a''),
                (\<lparr>txn1 = Commits, txn2 = Commits\<rparr>, ''/get/b'')] (main_recover []))) = ini
   \<and> created (main_recover [])
        (snd (ServeHTTP \<lparr>txn1 = Commits, txn2 = Commits\<rparr> ''/get/b'' (main_recover [])))
      = [(''b'', IP 10 8 0 2)]
   \<and> fst (ServeHTTP \<lparr>txn1 = Commits, txn2 = Commits\<rparr> ''/get/b'' (main_recover []))
      = Response 200 (Plain (ip_String (IP 10 8 0 2)))"
proof -
  let ?e = "\<lparr>txn1 = Commits, txn2 = Commits\<rparr>"
  let ?h0 = "\<lparr>db = [], next = IP 10 8 0 2\<rparr>"
  let ?h1 = "\<lparr>db = [(''b'', IP 10 8 0 2)], next = IP 10 8 0 3\<rparr>"
  let ?h2 = "\<lparr>db = [(''a'', IP 10 8 0 3), (''b'', IP 10 8 0 2)], next = IP 10 8 0 4\<rparr>"
  let ?rs = "[(?e, ''/get/b''), (?e, ''/get/a''), (?e, ''/get/b'')]"
  have h0: "main_recover [] = ?h0" by (simp add: main_recover_def ini_def)
  have s1: "snd (ServeHTTP ?e ''/get/b'' ?h0) = ?h1" by (simp add: serve_eval)
  have s2: "snd (ServeHTTP ?e ''/get/a'' ?h1) = ?h2" by (simp add: serve_eval)
  have s3: "snd (ServeHTTP ?e ''/get/b'' ?h2) = ?h2" by (simp add: serve_eval)
  have c1: "created ?h0 ?h1 = [(''b'', IP 10 8 0 2)]" by (simp add: created_def bucket_Get_def)
  have c2: "created ?h1 ?h2 = [(''a'', IP 10 8 0 3)]" by (simp add: created_def bucket_Get_def)
  have c3: "created ?h2 ?h2 = []" by (rule created_same)
  have 1: "allocations ?rs (main_recover []) = [(''b'', IP 10 8 0 2), (''a'', IP 10 8 0 3)]"
    by (simp only: h0 allocations.simps Let_def s1 s2 s3 c1 c2 c3 append.simps)
  have 2: "created (main_recover []) (snd (ServeHTTP ?e ''/get/b'' (main_recover [])))
      = [(''b'', IP 10 8 0 2)]"
    by (simp only: h0 s1 c1)
  have 3: "\<forall>x \<in> set (created (main_recover []) (snd (ServeHTTP ?e ''/get/b'' (main_recover [])))).
        fst (ServeHTTP ?e ''/get/b'' (main_recover [])) = Response 200 (Plain (ip_String (snd x)))"
    using fresh_allocations_increasing [of ?rs "main_recover []" ?e "''/get/b''"] by blast
  have 4: "fst (ServeHTTP ?e ''/get/b'' (main_recover []))
      = Response 200 (Plain (ip_String (IP 10 8 0 2)))"
    using 3 unfolding 2 by simp
  have 5: "allocations ?rs (main_recover []) \<noteq> [] \<longrightarrow>
        snd (hd (allocations ?rs (main_recover []))) = ini"
    using fresh_allocations_increasing [of ?rs "main_recover []" ?e "''/get/b''"] by blast
  have 6: "snd (hd (allocations ?rs (main_recover []))) = ini"
    using 5 unfolding 1 by simp
  from 1 2 4 6 show ?thesis by blast
qed

section \<open>Records stay as they are\<close>

text \<open>
  C8. With requests served one at a time, a record that exists is kept with its address
  by every operation: by any one request (for that device, for another device, the
  listing, an unknown path), by any sequence of requests, and by the scan at start-up,
  which writes nothing. A request for a device that has a record leaves the whole
  handler as it was.
\<close>

theorem records_immutable:
  assumes "bucket_Get (db h) d = Some a"
  shows "bucket_Get (db (snd (ServeHTTP e path h))) d = Some a
    \<and> bucket_Get (db (serve rs h)) d = Some a
    \<and> snd (ServeGet e d h) = h
    \<and> db (main_recover (db h)) = db h"
proof -
  have "\<not> allocates e d h" using assms by (simp add: allocates_def)
  then have "snd (ServeGet e d h) = h" by (rule ServeGet_unchanged)
  then show ?thesis
    using assms by (simp add: ServeHTTP_keeps_record serve_keeps_record main_recover_def)
qed

theorem records_immutable_witness:
  "bucket_Get (db \<lparr>db = [(''a'', IP 10 8 0 2)], next = IP 10 8 0 3\<rparr>) ''a'' = Some (IP 10 8 0 2)
   \<and> bucket_Get (db (snd (ServeHTTP \<lparr>txn1 = Commits, txn2 = Commits\<rparr> ''/get/b''
        \<lparr>db = [(''a'', IP 10 8 0 2)], next = IP 10 8 0 3\<rparr>))) ''a'' = Some (IP 10 8 0 2)
   \<and> db (snd (ServeHTTP \<lparr>txn1 = Commits, txn2 = Commits\<rparr> ''/get/b''
        \<lparr>db = [(''a'', IP 10 8 0 2)], next = IP 10 8 0 3\<rparr>))
      = [(''a'', IP 10 8 0 2), (''b'', IP 10 8 0 3)]"
proof -
  let ?h = "\<lparr>db = [(''a'', IP 10 8 0 2)], next = IP 10 8 0 3\<rparr>"
  let ?e = "\<lparr>txn1 = Commits, txn2 = Commits\<rparr>"
  have 1: "bucket_Get (db ?h) ''a'' = Some (IP 10 8 0 2)" by (simp add: bucket_Get_def)
  have 2: "db (snd (ServeHTTP ?e ''/get/b'' ?h)) = [(''a'', IP 10 8 0 2), (''b'', IP 10 8 0 3)]"
    by (simp add: serve_eval)
  have 3: "bucket_Get (db (snd (ServeHTTP ?e ''/get/b'' ?h))) ''a'' = Some (IP 10 8 0 2)"
    using records_immutable [OF 1, of ?e "''/get/b''" "[]"] by blast
  from 1 2 3 show ?thesis by blast
qed

section \<open>The test against fin\<close>

text \<open>
  C9. \<^verbatim>\<open>ServeGet\<close> tests whether \<^verbatim>\<open>next\<close> equals \<^verbatim>\<open>fin\<close>, not whether it is below.
  With \<^verbatim>\<open>next\<close> above \<^verbatim>\<open>fin\<close>, a first request for a device (lookup and write
  committing) succeeds with the address \<^verbatim>\<open>next\<close>, which is outside the range from
  \<^verbatim>\<open>ini\<close> up to \<^verbatim>\<open>fin\<close>. Start-up reaches such a handler when a record holds an address
  at or above \<^verbatim>\<open>fin\<close> (and none holds 255.255.255.255, after which the scan wraps).
  When every recorded address at start-up is below \<^verbatim>\<open>fin\<close>, the cursor starts at or
  below \<^verbatim>\<open>fin\<close> and every address allocated afterwards is below \<^verbatim>\<open>fin\<close>.
\<close>

theorem guard_is_equality:
  "(ip_val fin < ip_val (next h) \<and> bucket_Get (db h) d = None \<and> txn1 e = Commits
      \<and> \<not> write_fails e d \<longrightarrow>
        ServeGet e d h = (Response 200 (Plain (ip_String (next h))),
          \<lparr>db = put_sorted d (next h) (db h), next = nextIP (next h)\<rparr>)
        \<and> \<not> (ip_val ini \<le> ip_val (next h) \<and> ip_val (next h) < ip_val fin))
   \<and> ((\<forall>x \<in> set b. snd x \<noteq> IP 255 255 255 255)
        \<and> (\<exists>x \<in> set b. ip_val fin \<le> ip_val (snd x)) \<longrightarrow>
        ip_val fin < ip_val (next (main_recover b)))
   \<and> ((\<forall>x \<in> set b. ip_val (snd x) < ip_val fin) \<longrightarrow>
        ip_val (next (main_recover b)) \<le> ip_val fin
        \<and> (\<forall>x \<in> set (allocations rs (main_recover b)). ip_val (snd x) < ip_val fin))"
proof -
  have 1: "ServeGet e d h = (Response 200 (Plain (ip_String (next h))),
          \<lparr>db = put_sorted d (next h) (db h), next = nextIP (next h)\<rparr>)
        \<and> \<not> (ip_val ini \<le> ip_val (next h) \<and> ip_val (next h) < ip_val fin)"
    if "ip_val fin < ip_val (next h)" "bucket_Get (db h) d = None" "txn1 e = Commits"
      "\<not> write_fails e d"
  proof -
    have "next h \<noteq> fin" using that(1) by auto
    then show ?thesis using that by (simp add: ServeGet_allocates)
  qed
  have 2: "ip_val fin < ip_val (next (main_recover b))"
    if nw: "\<forall>x \<in> set b. snd x \<noteq> IP 255 255 255 255"
      and ex: "\<exists>x \<in> set b. ip_val fin \<le> ip_val (snd x)"
  proof -
    from ex obtain x where x: "x \<in> set b" "ip_val fin \<le> ip_val (snd x)" by blast
    have "ip_val (snd x) < ip_val (scan b ini)" by (rule scan_gt [OF nw x(1)])
    then show ?thesis using x(2) by (simp add: main_recover_def)
  qed
  have 3: "ip_val (next (main_recover b)) \<le> ip_val fin
        \<and> (\<forall>x \<in> set (allocations rs (main_recover b)). ip_val (snd x) < ip_val fin)"
    if "\<forall>x \<in> set b. ip_val (snd x) < ip_val fin"
  proof -
    have le: "ip_val (next (main_recover b)) \<le> ip_val fin"
      using scan_below_fin [OF that] by (simp add: main_recover_def)
    then show ?thesis using allocations_bounds [OF le, of rs] by blast
  qed
  from 1 2 3 show ?thesis by blast
qed

theorem guard_is_equality_witness:
  "ip_val fin < ip_val (next \<lparr>db = [(''a'', fin)], next = IP 10 93 0 0\<rparr>)
   \<and> bucket_Get (db \<lparr>db = [(''a'', fin)], next = IP 10 93 0 0\<rparr>) ''z'' = None
   \<and> \<not> write_fails \<lparr>txn1 = Commits, txn2 = Commits\<rparr> ''z''
   \<and> ServeGet \<lparr>txn1 = Commits, txn2 = Commits\<rparr> ''z'' \<lparr>db = [(''a'', fin)], next = IP 10 93 0 0\<rparr>
      = (Response 200 (Plain ''10.93.0.0''),
         \<lparr>db = [(''a'', fin), (''z'', IP 10 93 0 0)], next = IP 10 93 0 1\<rparr>)
   \<and> (\<exists>x \<in> set [(''a'', fin)]. ip_val fin \<le> ip_val (snd x))
   \<and> main_recover [(''a'', fin)] = \<lparr>db = [(''a'', fin)], next = IP 10 93 0 0\<rparr>
   \<and> ip_val fin < ip_val (next (main_recover [(''a'', fin)]))
   \<and> ip_val (IP 10 8 0 2) < ip_val fin
   \<and> allocations [(\<lparr>txn1 = Commits, txn2 = Commits\<rparr>, ''/get/b'')]
        (main_recover [(''a'', IP 10 8 0 2)]) = [(''b'', IP 10 8 0 3)]
   \<and> ip_val (IP 10 8 0 3) < ip_val fin"
proof -
  let ?e = "\<lparr>txn1 = Commits, txn2 = Commits\<rparr>"
  let ?h = "\<lparr>db = [(''a'', fin)], next = IP 10 93 0 0\<rparr>"
  let ?b = "[(''a'', fin)]"
  let ?c = "[(''a'', IP 10 8 0 2)]"
  let ?hc = "\<lparr>db = [(''a'', IP 10 8 0 2)], next = IP 10 8 0 3\<rparr>"
  let ?hc' = "\<lparr>db = [(''a'', IP 10 8 0 2), (''b'', IP 10 8 0 3)], next = IP 10 8 0 4\<rparr>"
  let ?rs = "[(?e, ''/get/b'')]"
  have a1: "ip_val fin < ip_val (next ?h)" by (simp add: ip_val_def fin_def)
  have a2: "bucket_Get (db ?h) ''z'' = None" by (simp add: bucket_Get_def)
  have a3: "txn1 ?e = Commits" by simp
  have a4: "\<not> write_fails ?e ''z''" by (simp add: write_fails_def MaxKeySize_def)
  have a5: "ip_String (next ?h) = ''10.93.0.0''"
    by (simp add: ip_String_def uitoa.simps digit_def)
  have a6: "put_sorted ''z'' (next ?h) (db ?h) = [(''a'', fin), (''z'', IP 10 93 0 0)]" by simp
  have a7: "nextIP (next ?h) = IP 10 93 0 1" by (simp add: nextIP_def)
  have b1: "\<forall>x \<in> set ?b. snd x \<noteq> IP 255 255 255 255" by (simp add: fin_def)
  have b2: "\<exists>x \<in> set ?b. ip_val fin \<le> ip_val (snd x)" by simp
  have b3: "main_recover ?b = ?h"
    by (simp add: main_recover_def ip_bytes_def ini_def fin_def nextIP_def)
  have c1: "\<forall>x \<in> set ?c. ip_val (snd x) < ip_val fin" by (simp add: ip_val_def fin_def)
  have c2: "main_recover ?c = ?hc"
    by (simp add: main_recover_def ip_bytes_def ini_def nextIP_def)
  have c3: "snd (ServeHTTP ?e ''/get/b'' ?hc) = ?hc'" by (simp add: serve_eval)
  have c4: "created ?hc ?hc' = [(''b'', IP 10 8 0 3)]" by (simp add: created_def bucket_Get_def)
  have c5: "allocations ?rs (main_recover ?c) = [(''b'', IP 10 8 0 3)]"
    by (simp only: c2 allocations.simps Let_def c3 c4 append.simps)
  note g1 = guard_is_equality [of ?h "''z''" ?e ?b ?rs]
  note g2 = guard_is_equality [of ?h "''z''" ?e ?c ?rs]
  have r1: "ServeGet ?e ''z'' ?h = (Response 200 (Plain ''10.93.0.0''),
         \<lparr>db = [(''a'', fin), (''z'', IP 10 93 0 0)], next = IP 10 93 0 1\<rparr>)"
    using g1 a1 a2 a3 a4 unfolding a5 a6 a7 by blast
  have r2: "ip_val fin < ip_val (next (main_recover ?b))"
    using g1 b1 b2 by blast
  have r3: "\<forall>x \<in> set (allocations ?rs (main_recover ?c)). ip_val (snd x) < ip_val fin"
    using g2 c1 by blast
  have r4: "ip_val (IP 10 8 0 3) < ip_val fin" using r3 unfolding c5 by simp
  have r5: "ip_val (IP 10 8 0 2) < ip_val fin" using c1 by simp
  from a1 a2 a4 r1 b2 b3 r2 r5 c5 r4 show ?thesis by blast
qed

section \<open>The empty device name\<close>

text \<open>
  The request \<^verbatim>\<open>/get/\<close> on a fresh handler, with every transaction committing, is
  answered 500 \<^verbatim>\<open>Database write failed.\<close> and writes nothing, where \<^verbatim>\<open>/get/a\<close> is
  answered 10.8.0.2 and recorded: the empty name is not allocated like another device.
\<close>

theorem empty_device_counterexample:
  "bucket_Get (db (main_recover [])) [] = None
   \<and> ServeHTTP \<lparr>txn1 = Commits, txn2 = Commits\<rparr> ''/get/'' (main_recover [])
      = (Response 500 (Plain ''Database write failed.''), main_recover [])
   \<and> ServeHTTP \<lparr>txn1 = Commits, txn2 = Commits\<rparr> ''/get/a'' (main_recover [])
      = (Response 200 (Plain ''10.8.0.2''), \<lparr>db = [(''a'', IP 10 8 0 2)], next = IP 10 8 0 3\<rparr>)"
  by (simp add: serve_eval)

text \<open>
  C10, amended. The path \<^verbatim>\<open>/get/\<close> is dispatched to \<^verbatim>\<open>ServeGet\<close> with the empty
  string as the device, with no check that the name is not empty. The empty name is
  looked up like any other, but it is never recorded: the handler is left as it was,
  and when the name is unseen, the lookup committed and \<^verbatim>\<open>next\<close> is not \<^verbatim>\<open>fin\<close>, the
  write is refused by the store for its empty key and the response is 500
  \<^verbatim>\<open>Database write failed.\<close>
\<close>

theorem empty_device:
  "ServeHTTP e ''/get/'' h = ServeGet e [] h
   \<and> snd (ServeGet e [] h) = h
   \<and> (bucket_Get (db h) [] = None \<and> txn1 e = Commits \<and> next h \<noteq> fin \<longrightarrow>
        ServeGet e [] h = (Response 500 (Plain ''Database write failed.''), h))"
proof -
  have 1: "ServeHTTP e ''/get/'' h = ServeGet e [] h"
    by (simp add: ServeHTTP_def HasPrefix_def TrimPrefix_def)
  have "\<not> allocates e [] h" by (simp add: allocates_def write_fails_empty)
  then have 2: "snd (ServeGet e [] h) = h" by (rule ServeGet_unchanged)
  have 3: "ServeGet e [] h = (Response 500 (Plain ''Database write failed.''), h)"
    if "bucket_Get (db h) [] = None" "txn1 e = Commits" "next h \<noteq> fin"
    using that by (simp add: ServeGet_write_fails write_fails_empty)
  from 1 2 3 show ?thesis by blast
qed

theorem empty_device_witness:
  "bucket_Get (db \<lparr>db = [(''a'', IP 10 8 0 2)], next = IP 10 8 0 3\<rparr>) [] = None
   \<and> txn1 \<lparr>txn1 = Commits, txn2 = Commits\<rparr> = Commits
   \<and> next \<lparr>db = [(''a'', IP 10 8 0 2)], next = IP 10 8 0 3\<rparr> \<noteq> fin
   \<and> ServeHTTP \<lparr>txn1 = Commits, txn2 = Commits\<rparr> ''/get/''
        \<lparr>db = [(''a'', IP 10 8 0 2)], next = IP 10 8 0 3\<rparr>
      = (Response 500 (Plain ''Database write failed.''),
         \<lparr>db = [(''a'', IP 10 8 0 2)], next = IP 10 8 0 3\<rparr>)"
proof -
  let ?h = "\<lparr>db = [(''a'', IP 10 8 0 2)], next = IP 10 8 0 3\<rparr>"
  let ?e = "\<lparr>txn1 = Commits, txn2 = Commits\<rparr>"
  have 1: "bucket_Get (db ?h) [] = None" by (simp add: bucket_Get_def)
  have 2: "txn1 ?e = Commits" by simp
  have 3: "next ?h \<noteq> fin" by (simp add: fin_def)
  show ?thesis using empty_device [of ?e ?h] 1 2 3 by simp
qed

end
